theory Spec2Isabelle
  imports Main "HOL-Library.Sublist"
begin

section \<open>Python string operations used by \<^verbatim>\<open>react_api.py\<close>\<close>

text \<open>
  A Python \<^verbatim>\<open>str\<close> is modelled as a \<^typ>\<open>string\<close>; a \<^typ>\<open>char\<close> stands for a code
  point below 256. The markers the program searches for are ASCII literals.
\<close>

text \<open>\<^verbatim>\<open>str.isspace\<close> on one character, for the code points below 256.\<close>

definition isspace :: "char \<Rightarrow> bool" where
  "isspace c \<longleftrightarrow>
     of_char c \<in> {9, 10, 11, 12, 13, 28, 29, 30, 31, 32, 133, 160 :: nat}"

text \<open>\<^verbatim>\<open>s.strip()\<close>: whitespace removed at both ends.\<close>

definition strip :: "string \<Rightarrow> string" where
  "strip s = rev (dropWhile isspace (rev (dropWhile isspace s)))"

text \<open>\<^verbatim>\<open>sub in s\<close>: \<open>sub\<close> occurs in \<open>s\<close> as a contiguous substring.\<close>

fun contains :: "string \<Rightarrow> string \<Rightarrow> bool" where
  "contains sub [] = (sub = [])"
| "contains sub (c # cs) = (prefix sub (c # cs) \<or> contains sub cs)"

text \<open>\<^verbatim>\<open>s.find(sub)\<close>: the lowest index where \<open>sub\<close> starts, or \<open>-1\<close>.\<close>

fun find_str :: "string \<Rightarrow> string \<Rightarrow> int" where
  "find_str sub [] = (if sub = [] then 0 else - 1)"
| "find_str sub (c # cs) =
     (if prefix sub (c # cs) then 0
      else (let r = find_str sub cs in if r = - 1 then - 1 else r + 1))"

text \<open>
  \<^verbatim>\<open>s.split(sep)\<close> for a non-empty separator: the pieces between the non-overlapping
  occurrences of \<open>sep\<close>, found from left to right. The program only passes the non-empty
  literals \<^verbatim>\<open>"Final Answer:"\<close>, \<^verbatim>\<open>"Action:"\<close>, \<^verbatim>\<open>"Action Input:"\<close> and \<^verbatim>\<open>"\n"\<close>
  (Python raises \<^verbatim>\<open>ValueError\<close> on an empty separator; here an empty separator never matches).
\<close>

function split :: "string \<Rightarrow> string \<Rightarrow> string list" where
  "split sep [] = [[]]"
| "split sep (c # cs) =
     (if sep \<noteq> [] \<and> prefix sep (c # cs)
      then [] # split sep (drop (length sep) (c # cs))
      else (case split sep cs of
              [] \<Rightarrow> [[c]]
            | p # ps \<Rightarrow> (c # p) # ps))"
  by pat_completeness auto
termination
  by (relation "measure (\<lambda>(sep, s). length s)") auto

text \<open>\<^verbatim>\<open>s[a:b]\<close> for indices \<open>0 \<le> a \<le> b\<close>.\<close>

definition slice :: "string \<Rightarrow> nat \<Rightarrow> nat \<Rightarrow> string" where
  "slice s a b = take (b - a) (drop a s)"

section \<open>Errors\<close>

text \<open>
  The exceptions of the program. \<open>ValueError\<close> carries the message the program gives it;
  \<open>JSONDecodeError\<close> is what \<^verbatim>\<open>json.loads\<close> raises (a subclass of \<^verbatim>\<open>ValueError\<close> in Python,
  kept apart here); \<open>IndexError\<close> is a list index out of range; \<open>TypeError\<close> is what a call
  raises whose keyword arguments do not fit the parameters of the function; \<open>External\<close> is any
  exception raised by a collaborator outside the program (the HTTP client, the response body,
  the date and time library).
\<close>

datatype error =
    ValueError string
  | JSONDecodeError string
  | IndexError
  | TypeError
  | External string

text \<open>\<^verbatim>\<open>xs[i]\<close> for \<open>i \<ge> 0\<close>: raises \<^verbatim>\<open>IndexError\<close> out of range.\<close>

definition index :: "'a list \<Rightarrow> nat \<Rightarrow> error + 'a" where
  "index xs i = (if i < length xs then Inr (xs ! i) else Inl IndexError)"

section \<open>\<^verbatim>\<open>extract_json\<close>\<close>

text \<open>
  The \<^verbatim>\<open>for i in range(start, len(s))\<close> loop of \<^verbatim>\<open>extract_json\<close>, at index \<open>i\<close> with the
  current value of \<^verbatim>\<open>counter\<close>. It returns the slice \<^verbatim>\<open>s[start : i + 1]\<close> that the source
  hands to \<^verbatim>\<open>json.loads\<close>, or the \<^verbatim>\<open>ValueError\<close> raised after the loop.
\<close>

function scan :: "string \<Rightarrow> nat \<Rightarrow> nat \<Rightarrow> int \<Rightarrow> error + string" where
  "scan s start i counter =
     (if i < length s then
        (if s ! i = CHR ''{'' then scan s start (i + 1) (counter + 1)
         else if s ! i = CHR ''}'' then
           (if counter - 1 = 0 then Inr (slice s start (i + 1))
            else scan s start (i + 1) (counter - 1))
         else scan s start (i + 1) counter)
      else Inl (ValueError ''No complete JSON object found''))"
  by pat_completeness auto
termination
  by (relation "measure (\<lambda>(s, start, i, counter). length s - i)") auto

declare scan.simps [simp del]

text \<open>
  \<^verbatim>\<open>extract_json(s)\<close>. The parser \<^verbatim>\<open>json.loads\<close> belongs to the Python library: it is the
  parameter \<open>json_loads\<close>, which returns the parsed value or the message of its
  \<^verbatim>\<open>JSONDecodeError\<close>.
\<close>

definition extract_json :: "(string \<Rightarrow> string + 'j) \<Rightarrow> string \<Rightarrow> error + 'j" where
  "extract_json json_loads s =
     (let start = find_str ''{'' s in
      if start = - 1 then Inl (ValueError ''No JSON object found'')
      else (case scan s (nat start) (nat start) 0 of
              Inl e \<Rightarrow> Inl e
            | Inr json_str \<Rightarrow>
                (case json_loads json_str of
                   Inl msg \<Rightarrow> Inl (JSONDecodeError msg)
                 | Inr v \<Rightarrow> Inr v)))"

section \<open>The agent loop of \<^verbatim>\<open>main\<close>\<close>

text \<open>
  What a run does to the outside, in order: a call of \<^verbatim>\<open>get_chat_completions\<close> with the
  transcript as the single user message (the stop words are always \<^verbatim>\<open>["Observation:"]\<close>),
  a call of the logger, a \<^verbatim>\<open>print\<close>, and a call \<^verbatim>\<open>tool(**tool_arguments)\<close> of the tool
  registered under a name.
\<close>

datatype level = DEBUG | INFO | ERROR

text \<open>
  The block that \<^verbatim>\<open>extract_json\<close> hands to \<^verbatim>\<open>json.loads\<close> starts with \<open>{\<close>, so what the parser
  returns for it is a Python \<^verbatim>\<open>dict\<close> with string keys: it is given by its items, in order,
  each key once. The JSON values are of a type \<open>'v\<close>.
\<close>

type_synonym 'v kwargs = "(string \<times> 'v) list"

datatype 'v event =
    Request string
  | Log level string
  | Print string
  | ToolCall string "'v kwargs"

text \<open>
  The collaborators outside the program:
  \<^item> \<open>get_chat_completions n transcript\<close> is the HTTP request of iteration \<open>n\<close>: it raises
    (\<open>Inl\<close>) or returns a response body. A body is given by what
    \<^verbatim>\<open>llm_response["choices"][0]["message"]["content"].strip()\<close> finds in it: the content
    string (\<open>Inr\<close>), or the exception of the indexing or of the method call (\<open>Inl\<close>);
  \<^item> \<open>json_loads\<close> is \<^verbatim>\<open>json.loads\<close> on a block, \<open>json_dumps\<close> is \<^verbatim>\<open>json.dumps\<close> on a
    \<^verbatim>\<open>dict\<close>, and \<open>json_int\<close> and \<open>json_str\<close> are the Python integers and strings among
    the JSON values;
  \<^item> \<open>shifted_now n x\<close> is
    \<^verbatim>\<open>(datetime.datetime.now() + datetime.timedelta(seconds=x)).strftime("%Y-%m-%d %H:%M:%S")\<close>
    at the tool call of iteration \<open>n\<close>: the string, or the exception of the library when
    \<open>x\<close> is not a number or the date is out of range.
\<close>

record 'v env =
  get_chat_completions :: "int \<Rightarrow> string \<Rightarrow> error + (error + string)"
  json_loads :: "string \<Rightarrow> string + 'v kwargs"
  json_dumps :: "'v kwargs \<Rightarrow> string"
  json_int :: "int \<Rightarrow> 'v"
  json_str :: "string \<Rightarrow> 'v"
  shifted_now :: "int \<Rightarrow> 'v \<Rightarrow> error + string"

text \<open>
  The tool functions, called as \<^verbatim>\<open>tool(**tool_arguments)\<close> in iteration \<open>n\<close>. The call raises
  \<^verbatim>\<open>TypeError\<close> when a key is not a parameter of the function or a parameter without default
  has no key; a parameter with a default takes it when its key is missing.

  \<^verbatim>\<open>def get_current_time(seconds_offset=0)\<close>:
\<close>

definition get_current_time :: "'v env \<Rightarrow> int \<Rightarrow> 'v kwargs \<Rightarrow> error + string" where
  "get_current_time env n kwargs =
     (if list_all (\<lambda>k. k = ''seconds_offset'') (map fst kwargs) then
        (let seconds_offset =
               (case map_of kwargs ''seconds_offset'' of None \<Rightarrow> json_int env 0 | Some x \<Rightarrow> x)
         in shifted_now env n seconds_offset)
      else Inl TypeError)"

text \<open>\<^verbatim>\<open>def get_weather(city, timestamp=None)\<close>:\<close>

definition get_weather :: "'v env \<Rightarrow> int \<Rightarrow> 'v kwargs \<Rightarrow> error + string" where
  "get_weather env n kwargs =
     (if list_all (\<lambda>k. k = ''city'' \<or> k = ''timestamp'') (map fst kwargs) then
        (case map_of kwargs ''city'' of
           None \<Rightarrow> Inl TypeError
         | Some city \<Rightarrow>
             Inr (json_dumps env
                    [(''temperature'', json_int env 25),
                     (''weather'', json_str env ''sunny''),
                     (''city'', city)]))
      else Inl TypeError)"

text \<open>The dictionary \<^verbatim>\<open>tool_maps\<close>; \<^verbatim>\<open>tool_maps.get(action)\<close> is \<open>tool_maps env action\<close>.\<close>

definition tool_maps :: "'v env \<Rightarrow> string \<Rightarrow> (int \<Rightarrow> 'v kwargs \<Rightarrow> error + string) option" where
  "tool_maps env =
     [''get_current_time'' \<mapsto> get_current_time env, ''get_weather'' \<mapsto> get_weather env]"

text \<open>The variables of \<^verbatim>\<open>main\<close>, and the effects so far.\<close>

record 'v agent_state =
  scratch_pad :: string
  final_answer_found :: bool
  current_iteration :: int
  final_answer :: "string option"
  events :: "'v event list"

definition emit :: "'v event \<Rightarrow> 'v agent_state \<Rightarrow> 'v agent_state" where
  "emit e s = s\<lparr>events := events s @ [e]\<rparr>"

text \<open>
  How a pass through the loop body ends: it reaches the loop test again (at the end of the
  body or by \<^verbatim>\<open>continue\<close>), it leaves the loop by \<^verbatim>\<open>break\<close>, or an exception escapes.
\<close>

datatype abort = MaxIterationsExceeded | UnknownTool

datatype control = Continue | Break abort | Raise error

text \<open>The expression \<^verbatim>\<open>response_message.split(marker)[1].split("\n")[0].strip()\<close>.\<close>

definition marker_line :: "string \<Rightarrow> string \<Rightarrow> error + string" where
  "marker_line marker response_message =
     (case index (split marker response_message) 1 of
        Inl e \<Rightarrow> Inl e
      | Inr rest \<Rightarrow>
          (case index (split ''\<newline>'' rest) 0 of
             Inl e \<Rightarrow> Inl e
           | Inr line \<Rightarrow> Inr (strip line)))"

text \<open>The statement \<^verbatim>\<open>if "Final Answer:" in response_message: ...\<close> of \<^verbatim>\<open>main\<close>.\<close>

definition final_answer_branch :: "string \<Rightarrow> 'v agent_state \<Rightarrow> 'v agent_state \<times> control" where
  "final_answer_branch response_message s =
     (if contains ''Final Answer:'' response_message then
        (let s1 = s\<lparr>final_answer_found := True\<rparr> in
         case index (split ''Final Answer:'' response_message) 1 of
           Inl e \<Rightarrow> (s1, Raise e)
         | Inr rest \<Rightarrow>
             (let s2 = s1\<lparr>final_answer := Some (strip rest)\<rparr>;
                  s3 = emit (Log INFO (strip rest)) s2
              in (emit (Log DEBUG (scratch_pad s3)) s3, Continue)))
      else (s, Continue))"

text \<open>The statement \<^verbatim>\<open>if "Action Input:" in response_message: ...\<close> that follows it.\<close>

definition dispatch_action :: "'v env \<Rightarrow> string \<Rightarrow> 'v agent_state \<Rightarrow> 'v agent_state \<times> control" where
  "dispatch_action env response_message s =
     (if contains ''Action Input:'' response_message then
        (case marker_line ''Action:'' response_message of
           Inl e \<Rightarrow> (s, Raise e)
         | Inr action \<Rightarrow>
             (case marker_line ''Action Input:'' response_message of
                Inl e \<Rightarrow> (s, Raise e)
              | Inr action_input \<Rightarrow>
                  (case tool_maps env action of
                     Some tool \<Rightarrow>
                       (case extract_json (json_loads env) action_input of
                          Inl e \<Rightarrow> (s, Raise e)
                        | Inr tool_arguments \<Rightarrow>
                            (let s1 = emit (ToolCall action tool_arguments) s in
                             case tool (current_iteration s) tool_arguments of
                               Inl e \<Rightarrow> (s1, Raise e)
                             | Inr tool_response \<Rightarrow>
                                 (let s2 = s1\<lparr>scratch_pad :=
                                            scratch_pad s1 @ ''\<newline>Observation: '' @ tool_response\<rparr>
                                  in (emit (Log DEBUG (''Observation: '' @ tool_response)) s2,
                                      Continue))))
                   | None \<Rightarrow>
                       (emit (Log ERROR ''Tool not found. Exiting!'') s, Break UnknownTool))))
      else (s, Continue))"

text \<open>One pass through the body of \<^verbatim>\<open>while not final_answer_found\<close>.\<close>

definition iteration :: "'v env \<Rightarrow> 'v agent_state \<Rightarrow> 'v agent_state \<times> control" where
  "iteration env s =
     (let s1 = s\<lparr>current_iteration := current_iteration s + 1\<rparr>;
          s2 = emit (Request (scratch_pad s1)) s1
      in case get_chat_completions env (current_iteration s1) (scratch_pad s1) of
           Inl e \<Rightarrow> (s2, Raise e)
         | Inr llm_response \<Rightarrow>
             if current_iteration s2 > 10 then
               (emit (Print (scratch_pad s2))
                  (emit (Log ERROR ''Max iterations reached. Exiting'') s2),
                Break MaxIterationsExceeded)
             else
               (case llm_response of
                  Inl e \<Rightarrow> (s2, Raise e)
                | Inr content \<Rightarrow>
                    (let response_message = strip content;
                         s3 = emit (Log DEBUG response_message) s2;
                         s4 = s3\<lparr>scratch_pad := scratch_pad s3 @ ''\<newline>'' @ response_message\<rparr>
                     in case final_answer_branch response_message s4 of
                          (s5, Continue) \<Rightarrow> dispatch_action env response_message s5
                        | (s5, c) \<Rightarrow> (s5, c))))"

text \<open>How the loop, and with it the run, ends.\<close>

datatype exit = Finished | Aborted abort | Raised error

text \<open>The loop \<^verbatim>\<open>while not final_answer_found\<close>.\<close>

function main_loop :: "'v env \<Rightarrow> 'v agent_state \<Rightarrow> 'v agent_state \<times> exit" where
  "main_loop env s =
     (if final_answer_found s then (s, Finished)
      else (case iteration env s of
              (s', Continue) \<Rightarrow> main_loop env s'
            | (s', Break reason) \<Rightarrow> (s', Aborted reason)
            | (s', Raise e) \<Rightarrow> (s', Raised e)))"
  by pat_completeness auto
termination
  by (relation "measure (\<lambda>(env, s). nat (11 - current_iteration s))")
     (auto simp: iteration_def final_answer_branch_def dispatch_action_def emit_def Let_def
           split: sum.splits if_splits prod.splits control.splits option.splits)

declare main_loop.simps [simp del]

text \<open>
  \<^verbatim>\<open>main\<close> from the assignment of \<^verbatim>\<open>scratch_pad\<close> on, for the text \<open>prompt\<close> of the global
  \<^verbatim>\<open>prompt\<close> and the question of the command line. (The call of \<^verbatim>\<open>setup_logging\<close> before
  it makes no request and touches none of these variables.)
\<close>

definition initial_state :: "string \<Rightarrow> string \<Rightarrow> 'v agent_state" where
  "initial_state prompt question =
     \<lparr>scratch_pad = prompt @ ''\<newline>Question: '' @ question,
      final_answer_found = False,
      current_iteration = 0,
      final_answer = None,
      events = []\<rparr>"

definition main :: "'v env \<Rightarrow> string \<Rightarrow> string \<Rightarrow> 'v agent_state \<times> exit" where
  "main env prompt question = main_loop env (initial_state prompt question)"

section \<open>Notions of the specification\<close>

text \<open>
  The net brace depth of a text: the value of the depth counter after reading it, every
  \<open>{\<close> counting \<open>+1\<close> and every \<open>}\<close> counting \<open>-1\<close>.
\<close>

fun depth :: "string \<Rightarrow> int" where
  "depth [] = 0"
| "depth (c # cs) =
     (if c = CHR ''{'' then 1 else if c = CHR ''}'' then - 1 else 0) + depth cs"

text \<open>
  A balanced block: it starts with \<open>{\<close>, its depth is zero at its end and positive at every
  proper non-empty prefix, so that its last character is the brace matching the first.
\<close>

definition balanced_block :: "string \<Rightarrow> bool" where
  "balanced_block b \<longleftrightarrow>
     b \<noteq> [] \<and> hd b = CHR ''{'' \<and> depth b = 0 \<and> (\<forall>n\<in>{1..<length b}. 0 < depth (take n b))"


text \<open>
  The depth counter never returns to zero: from the first \<open>{\<close> of the text on, no non-empty
  prefix has depth zero.
\<close>

definition never_closes :: "string \<Rightarrow> bool" where
  "never_closes s \<longleftrightarrow>
     (let t = dropWhile (\<lambda>c. c \<noteq> CHR ''{'') s
      in \<forall>n\<in>{1..length t}. depth (take n t) \<noteq> 0)"

text \<open>
  The loop of \<^verbatim>\<open>extract_json\<close> read off the characters still to come: the offset of the brace
  at which the counter, now \<open>c\<close>, reaches zero.
\<close>

fun close_at :: "int \<Rightarrow> string \<Rightarrow> nat option" where
  "close_at c [] = None"
| "close_at c (x # xs) =
     (if x = CHR ''{'' then map_option Suc (close_at (c + 1) xs)
      else if x = CHR ''}'' then
        (if c - 1 = 0 then Some 0 else map_option Suc (close_at (c - 1) xs))
      else map_option Suc (close_at c xs))"

text \<open>The tool invocations and the model requests among the effects, in order.\<close>

fun tool_calls :: "'v event list \<Rightarrow> (string \<times> 'v kwargs) list" where
  "tool_calls [] = []"
| "tool_calls (ToolCall name args # es) = (name, args) # tool_calls es"
| "tool_calls (e # es) = tool_calls es"

fun requests :: "'v event list \<Rightarrow> string list" where
  "requests [] = []"
| "requests (Request transcript # es) = transcript # requests es"
| "requests (e # es) = requests es"

text \<open>
  The running loop, in state \<open>s\<close>, is below the cap and its request returns a body whose
  content is the string \<open>content\<close>.
\<close>

definition receives :: "'v env \<Rightarrow> 'v agent_state \<Rightarrow> string \<Rightarrow> bool" where
  "receives env s content \<longleftrightarrow>
     current_iteration s < 10 \<and>
     get_chat_completions env (current_iteration s + 1) (scratch_pad s) = Inr (Inr content)"

text \<open>Everything after the first occurrence of a marker that occurs in \<open>s\<close>.\<close>

definition remainder_after :: "string \<Rightarrow> string \<Rightarrow> string" where
  "remainder_after marker s = drop (nat (find_str marker s) + length marker) s"

text \<open>
  The text after the first \<^verbatim>\<open>"Final Answer:"\<close>, up to the next occurrence of that marker
  when there is one, to the end otherwise.
\<close>

definition answer_text :: "string \<Rightarrow> string" where
  "answer_text response_message =
     (let rest = remainder_after ''Final Answer:'' response_message
      in if contains ''Final Answer:'' rest
         then take (nat (find_str ''Final Answer:'' rest)) rest
         else rest)"

text \<open>
  The state after the request of an iteration, and the state after the stripped completion
  has been logged and appended to the transcript.
\<close>

definition requested :: "'v agent_state \<Rightarrow> 'v agent_state" where
  "requested s =
     s\<lparr>current_iteration := current_iteration s + 1,
       events := events s @ [Request (scratch_pad s)]\<rparr>"

definition appended :: "'v agent_state \<Rightarrow> string \<Rightarrow> 'v agent_state" where
  "appended s response_message =
     s\<lparr>current_iteration := current_iteration s + 1,
       scratch_pad := scratch_pad s @ ''\<newline>'' @ response_message,
       events := events s @ [Request (scratch_pad s), Log DEBUG response_message]\<rparr>"

text \<open>
  An environment for examples, over JSON values that are integers or strings: the model
  answers request \<open>n\<close> with \<open>completions n\<close>, \<^verbatim>\<open>json.loads\<close> returns the dictionary \<open>parsed\<close>,
  \<^verbatim>\<open>json.dumps\<close> returns \<open>dumped\<close> and the clock, shifted, reads a fixed time.
\<close>

datatype json = JInt int | JStr string

definition scripted :: "(int \<Rightarrow> string) \<Rightarrow> json kwargs \<Rightarrow> string \<Rightarrow> json env" where
  "scripted completions parsed dumped =
     \<lparr>get_chat_completions = (\<lambda>n transcript. Inr (Inr (completions n))),
      json_loads = (\<lambda>json_str. Inr parsed),
      json_dumps = (\<lambda>d. dumped),
      json_int = JInt,
      json_str = JStr,
      shifted_now = (\<lambda>n x. Inr ''2024-01-01 00:00:00'')\<rparr>"

section \<open>Lemmas on \<^verbatim>\<open>extract_json\<close>\<close>

lemma scan_close_at:
  "i \<le> length s \<Longrightarrow>
   scan s start i c =
     (case close_at c (drop i s) of
        None \<Rightarrow> Inl (ValueError ''No complete JSON object found'')
      | Some k \<Rightarrow> Inr (slice s start (i + k + 1)))"
proof (induction s start i c rule: scan.induct)
  case (1 s start i counter)
  show ?case
  proof (cases "i < length s")
    case False
    with "1.prems" show ?thesis by (subst scan.simps) simp
  next
    case True
    then have d: "drop i s = s ! i # drop (Suc i) s"
      by (simp add: Cons_nth_drop_Suc)
    from True have le: "i + 1 \<le> length s" by simp
    show ?thesis
      using True "1.IH"(1)[OF True _ le] "1.IH"(2)[OF True _ _ _ le] "1.IH"(3)[OF True _ _ le]
      by (subst scan.simps) (auto simp: d split: option.splits)
  qed
qed

lemma find_brace_none: "find_str ''{'' s = - 1 \<longleftrightarrow> CHR ''{'' \<notin> set s"
  and find_brace_nonneg: "- 1 \<le> find_str ''{'' s"
  by (induction s) (auto simp: Let_def)

lemma find_brace_split:
  "CHR ''{'' \<notin> set pre \<Longrightarrow> find_str ''{'' (pre @ CHR ''{'' # rest) = int (length pre)"
  by (induction pre) (auto simp: Let_def)

lemma close_at_balanced:
  "1 \<le> c \<Longrightarrow> \<forall>n<length xs. 0 < c + depth (take n xs) \<Longrightarrow> c + depth xs = 0 \<Longrightarrow>
   close_at c (xs @ post) = Some (length xs - 1)"
proof (induction xs arbitrary: c)
  case Nil
  then show ?case by simp
next
  case (Cons x xs)
  have tl: "\<forall>n<length xs. 0 < c + depth (take (Suc n) (x # xs))"
    using Cons.prems(2) by auto
  show ?case
  proof (cases "xs = []")
    case True
    with Cons.prems show ?thesis by (auto split: if_splits)
  next
    case False
    then have "0 < c + depth (take 1 (x # xs))"
      using Cons.prems(2) by (metis One_nat_def length_Cons length_greater_0_conv Suc_less_eq)
    then have pos: "0 < c + depth [x]" by simp
    let ?c' = "c + depth [x]"
    have "close_at ?c' (xs @ post) = Some (length xs - 1)"
    proof (rule Cons.IH)
      show "1 \<le> ?c'" using pos by simp
      show "\<forall>n<length xs. 0 < ?c' + depth (take n xs)"
        using tl by (auto split: if_splits)
      show "?c' + depth xs = 0" using Cons.prems(3) by (auto split: if_splits)
    qed
    with pos False show ?thesis by (auto split: if_splits)
  qed
qed

lemma close_at_None:
  "1 \<le> c \<Longrightarrow> close_at c xs = None \<longleftrightarrow> (\<forall>n\<le>length xs. c + depth (take n xs) \<noteq> 0)"
proof (induction xs arbitrary: c)
  case Nil
  then show ?case by simp
next
  case (Cons x xs)
  have all: "(\<forall>n\<le>length (x # xs). c + depth (take n (x # xs)) \<noteq> 0) \<longleftrightarrow>
             (\<forall>n\<le>length xs. c + depth [x] + depth (take n xs) \<noteq> 0)" (is "?L = ?R")
  proof
    assume l: ?L
    show ?R
    proof (intro allI impI)
      fix n assume "n \<le> length xs"
      then have "Suc n \<le> length (x # xs)" by simp
      from l[rule_format, OF this] show "c + depth [x] + depth (take n xs) \<noteq> 0" by simp
    qed
  next
    assume r: ?R
    show ?L
    proof (intro allI impI)
      fix n assume n: "n \<le> length (x # xs)"
      show "c + depth (take n (x # xs)) \<noteq> 0"
      proof (cases n)
        case 0
        with Cons.prems show ?thesis by simp
      next
        case (Suc m)
        with n r[rule_format, of m] show ?thesis by simp
      qed
    qed
  qed
  show ?case
  proof (cases "x = CHR ''}'' \<and> c - 1 = 0")
    case True
    then have "c + depth (take 1 (x # xs)) = 0" by simp
    moreover have "1 \<le> length (x # xs)" by simp
    ultimately have "\<not> (\<forall>n\<le>length (x # xs). c + depth (take n (x # xs)) \<noteq> 0)" by blast
    with True show ?thesis by simp
  next
    case False
    then have c': "1 \<le> c + depth [x]" using Cons.prems by auto
    from False Cons.IH[OF c'] show ?thesis
      unfolding all by (auto split: if_splits)
  qed
qed

lemma extract_json_at_brace:
  assumes "CHR ''{'' \<notin> set pre"
  shows "extract_json loads (pre @ CHR ''{'' # rest) =
     (case close_at 1 rest of
        None \<Rightarrow> Inl (ValueError ''No complete JSON object found'')
      | Some k \<Rightarrow>
          (case loads (CHR ''{'' # take (Suc k) rest) of
             Inl msg \<Rightarrow> Inl (JSONDecodeError msg)
           | Inr v \<Rightarrow> Inr v))"
proof -
  let ?s = "pre @ CHR ''{'' # rest"
  have f: "find_str ''{'' ?s = int (length pre)"
    using assms by (rule find_brace_split)
  have sc: "scan ?s (length pre) (length pre) 0 =
     (case close_at 1 rest of
        None \<Rightarrow> Inl (ValueError ''No complete JSON object found'')
      | Some k \<Rightarrow> Inr (CHR ''{'' # take (Suc k) rest))"
    by (subst scan_close_at) (auto simp: slice_def split: option.splits)
  show ?thesis
    by (simp add: extract_json_def f sc split: option.splits)
qed

section \<open>Claims on \<^verbatim>\<open>extract_json\<close>\<close>

text \<open>
  C1, as the code has it. When the text holds a balanced block at its first \<open>{\<close> (no \<open>{\<close>
  before the block, and the depth, counted over every brace of the text, those inside JSON
  string literals too, first back at zero at the last character of the block),
  \<^verbatim>\<open>extract_json\<close> hands exactly that block to \<^verbatim>\<open>json.loads\<close> and returns what it returns,
  whatever follows the matching close brace; nested braces are matched by depth.
\<close>

theorem extract_json_balanced:
  assumes "CHR ''{'' \<notin> set pre" and "balanced_block b"
  shows "extract_json loads (pre @ b @ post) =
     (case loads b of Inl msg \<Rightarrow> Inl (JSONDecodeError msg) | Inr v \<Rightarrow> Inr v)"
proof -
  from assms(2) obtain b' where b: "b = CHR ''{'' # b'"
    by (cases b) (auto simp: balanced_block_def)
  from assms(2) have d: "1 + depth b' = 0"
    by (simp add: balanced_block_def b)
  then have ne: "b' \<noteq> []" by auto
  have pos: "\<forall>n<length b'. 0 < 1 + depth (take n b')"
  proof (intro allI impI)
    fix n assume "n < length b'"
    then have "Suc n \<in> {1..<length b}" by (simp add: b)
    with assms(2) have "0 < depth (take (Suc n) b)"
      unfolding balanced_block_def by blast
    then show "0 < 1 + depth (take n b')" by (simp add: b)
  qed
  have "close_at 1 (b' @ post) = Some (length b' - 1)"
    by (rule close_at_balanced[OF _ pos d]) simp
  moreover have "Suc (length b' - 1) = length b'" using ne by (cases b') auto
  ultimately show ?thesis
    using extract_json_at_brace[OF assms(1), of loads "b' @ post"]
    by (simp add: b)
qed

theorem extract_json_balanced_witness:
  \<open>CHR ''{'' \<notin> set ''noise '' \<and> balanced_block ''{"a": {"b": 1}}'' \<and>
   extract_json (\<lambda>s. Inr s :: string + string) (''noise '' @ ''{"a": {"b": 1}}'' @ '' trailing'')
     = Inr ''{"a": {"b": 1}}''\<close>
proof -
  have h1: "CHR ''{'' \<notin> set ''noise ''" by simp
  have h2: \<open>balanced_block ''{"a": {"b": 1}}''\<close>
    by (simp add: balanced_block_def atLeastLessThan_upt del: set_upt)
  show ?thesis
    using h1 h2 extract_json_balanced[OF h1 h2, of "\<lambda>s. Inr s :: string + string" "'' trailing''"]
    by simp
qed

text \<open>
  A JSON object with a brace inside a string value is not returned: for the object
  \<^verbatim>\<open>{"a": "}{"}\<close>, whose braces even cancel out as a whole, the counter is back at zero at the
  \<open>}\<close> inside the string, and the block handed to the parser (here the identity on the text
  of the block) is \<^verbatim>\<open>{"a": "}\<close>, which is not the object and not a JSON text.
\<close>

theorem extract_json_brace_in_string:
  \<open>depth ''{"a": "}{"}'' = 0 \<and>
   extract_json (\<lambda>s. Inr s :: string + string) ''{"a": "}{"}'' = Inr ''{"a": "}'' \<and>
   extract_json (\<lambda>s. Inr s :: string + string) ''{"a": "}{"}'' \<noteq> Inr ''{"a": "}{"}''\<close>
proof -
  have \<open>extract_json (\<lambda>s. Inr s :: string + string) ''{"a": "}{"}'' = Inr ''{"a": "}''\<close>
    using extract_json_at_brace[of "[]" "\<lambda>s. Inr s :: string + string"] by simp
  then show ?thesis by simp
qed

text \<open>
  C5. \<^verbatim>\<open>extract_json\<close> raises \<^verbatim>\<open>ValueError("No JSON object found")\<close> exactly when the text
  has no \<open>{\<close>, and raises \<^verbatim>\<open>ValueError("No complete JSON object found")\<close>, without parsing
  anything, exactly when the text has a \<open>{\<close> and the depth counter never returns to zero.
\<close>

theorem extract_json_failures:
  "(extract_json loads s = Inl (ValueError ''No JSON object found'') \<longleftrightarrow>
      CHR ''{'' \<notin> set s) \<and>
   (extract_json loads s = Inl (ValueError ''No complete JSON object found'') \<longleftrightarrow>
      CHR ''{'' \<in> set s \<and> never_closes s)"
proof (cases "CHR ''{'' \<in> set s")
  case False
  then have "find_str ''{'' s = - 1" by (simp add: find_brace_none)
  with False show ?thesis by (simp add: extract_json_def)
next
  case True
  then obtain pre rest where s: "s = pre @ CHR ''{'' # rest" and pre: "CHR ''{'' \<notin> set pre"
    by (auto dest: split_list_first)
  have t: "dropWhile (\<lambda>c. c \<noteq> CHR ''{'') s = CHR ''{'' # rest"
    using pre by (auto simp: s dropWhile_append3)
  have nc: "never_closes s \<longleftrightarrow> close_at 1 rest = None"
  proof -
    have "never_closes s \<longleftrightarrow> (\<forall>n\<in>{1..Suc (length rest)}. depth (take n (CHR ''{'' # rest)) \<noteq> 0)"
      by (simp add: never_closes_def t)
    also have "\<dots> \<longleftrightarrow> (\<forall>m\<le>length rest. 1 + depth (take m rest) \<noteq> 0)" (is "?L = ?R")
    proof
      assume l: ?L
      show ?R
      proof (intro allI impI)
        fix m assume "m \<le> length rest"
        then have "Suc m \<in> {1..Suc (length rest)}" by simp
        from l[rule_format, OF this] show "1 + depth (take m rest) \<noteq> 0" by simp
      qed
    next
      assume r: ?R
      show ?L
      proof
        fix n assume "n \<in> {1..Suc (length rest)}"
        then obtain m where "n = Suc m" "m \<le> length rest" by (cases n) auto
        with r show "depth (take n (CHR ''{'' # rest)) \<noteq> 0" by simp
      qed
    qed
    also have "\<dots> \<longleftrightarrow> close_at 1 rest = None"
      by (simp add: close_at_None)
    finally show ?thesis .
  qed
  show ?thesis
    using True
    by (auto simp: s nc[unfolded s] extract_json_at_brace[OF pre] split: option.splits sum.splits)
qed

theorem extract_json_failures_witness:
  \<open>CHR ''{'' \<notin> set ''no braces here'' \<and>
   extract_json (\<lambda>s. Inr s :: string + string) ''no braces here''
     = Inl (ValueError ''No JSON object found'') \<and>
   CHR ''{'' \<in> set ''{"a": 1'' \<and> never_closes ''{"a": 1'' \<and>
   extract_json (\<lambda>s. Inr s :: string + string) ''{"a": 1''
     = Inl (ValueError ''No complete JSON object found'')\<close>
proof -
  have g: "CHR ''{'' \<notin> set ''no braces here''" by simp
  have b: \<open>CHR ''{'' \<in> set ''{"a": 1''\<close> by simp
  have h: \<open>never_closes ''{"a": 1''\<close>
    by (simp add: never_closes_def atLeastAtMost_upt del: set_upt)
  from extract_json_failures[of "\<lambda>s. Inr s :: string + string" "''no braces here''"] g
  have 1: "extract_json (\<lambda>s. Inr s :: string + string) ''no braces here''
             = Inl (ValueError ''No JSON object found'')"
    by blast
  from extract_json_failures[of "\<lambda>s. Inr s :: string + string" \<open>''{"a": 1''\<close>] h b
  have 2: \<open>extract_json (\<lambda>s. Inr s :: string + string) ''{"a": 1''
             = Inl (ValueError ''No complete JSON object found'')\<close>
    by blast
  from g 1 b h 2 show ?thesis by blast
qed

section \<open>Lemmas on the string operations\<close>

lemma contains_sublist: "contains sub s \<longleftrightarrow> sublist sub s"
  by (induction s) (auto simp: sublist_Cons_right)

lemma contains_dropWhile:
  assumes "sub \<noteq> []" and "\<not> P (hd sub)"
  shows "contains sub (dropWhile P s) \<longleftrightarrow> contains sub s"
proof (induction s)
  case Nil
  show ?case by simp
next
  case (Cons c cs)
  show ?case
  proof (cases "P c")
    case False
    then show ?thesis by simp
  next
    case True
    have "\<not> prefix sub (c # cs)"
    proof
      assume "prefix sub (c # cs)"
      with assms(1) have "hd sub = c" by (cases sub) auto
      with assms(2) True show False by simp
    qed
    with True Cons show ?thesis by simp
  qed
qed

lemma contains_strip:
  assumes "sub \<noteq> []" and "\<not> isspace (hd sub)" and "\<not> isspace (last sub)"
  shows "contains sub (strip s) \<longleftrightarrow> contains sub s"
proof -
  have r: "rev sub \<noteq> []" "\<not> isspace (hd (rev sub))"
    using assms by (simp_all add: hd_rev)
  have "contains sub (strip s) \<longleftrightarrow> contains (rev sub) (dropWhile isspace (rev (dropWhile isspace s)))"
    by (simp add: strip_def contains_sublist sublist_rev_right)
  also have "\<dots> \<longleftrightarrow> contains (rev sub) (rev (dropWhile isspace s))"
    using r by (rule contains_dropWhile[where P = isspace])
  also have "\<dots> \<longleftrightarrow> contains sub (dropWhile isspace s)"
    by (simp add: contains_sublist sublist_rev_right)
  also have "\<dots> \<longleftrightarrow> contains sub s"
    using assms(1,2) by (rule contains_dropWhile[where P = isspace])
  finally show ?thesis .
qed

lemma contains_strip_markers:
  "contains ''Final Answer:'' (strip s) \<longleftrightarrow> contains ''Final Answer:'' s"
  "contains ''Action Input:'' (strip s) \<longleftrightarrow> contains ''Action Input:'' s"
  "contains ''Action:'' (strip s) \<longleftrightarrow> contains ''Action:'' s"
  by (rule contains_strip; simp add: isspace_def)+

lemma find_str_contains: "find_str sub s = - 1 \<longleftrightarrow> \<not> contains sub s"
  and find_str_ge: "- 1 \<le> find_str sub s"
  by (induction s) (auto simp: Let_def)

lemma split_not_Nil: "split sep s \<noteq> []"
  by (induction sep s rule: split.induct) (auto split: list.splits)

lemma split_absent: "\<not> contains sep s \<Longrightarrow> split sep s = [s]"
  by (induction s) (auto split: list.splits)

lemma split_present:
  assumes "sep \<noteq> []"
  shows "contains sep s \<Longrightarrow>
    split sep s = take (nat (find_str sep s)) s
                  # split sep (drop (nat (find_str sep s) + length sep) s)"
proof (induction s)
  case Nil
  with assms show ?case by simp
next
  case (Cons c cs)
  show ?case
  proof (cases "prefix sep (c # cs)")
    case True
    with assms show ?thesis by simp
  next
    case False
    with Cons.prems have c: "contains sep cs" by simp
    then have "find_str sep cs \<noteq> - 1" by (simp add: find_str_contains)
    with find_str_ge[of sep cs] have ge: "0 \<le> find_str sep cs" by linarith
    then have n: "nat (find_str sep cs + 1) = Suc (nat (find_str sep cs))" by linarith
    from False c ge Cons.IH[OF c] show ?thesis
      by (simp add: Let_def n)
  qed
qed

lemma hd_split:
  "sep \<noteq> [] \<Longrightarrow>
   hd (split sep s) = (if contains sep s then take (nat (find_str sep s)) s else s)"
  by (simp add: split_absent split_present)

lemma index_split_absent:
  "\<not> contains sep s \<Longrightarrow> index (split sep s) (Suc 0) = Inl IndexError"
  by (simp add: split_absent index_def)

lemma index_split_present:
  assumes "sep \<noteq> []" and "contains sep s"
  shows "index (split sep s) (Suc 0) =
     Inr (hd (split sep (drop (nat (find_str sep s) + length sep) s)))"
proof -
  let ?rest = "drop (nat (find_str sep s) + length sep) s"
  obtain p ps where "split sep ?rest = p # ps"
    using split_not_Nil[of sep ?rest] by (cases "split sep ?rest") auto
  then show ?thesis
    by (simp add: split_present[OF assms] index_def)
qed

lemma index_split_0: "index (split sep s) 0 = Inr (hd (split sep s))"
  using split_not_Nil[of sep s] by (cases "split sep s") (auto simp: index_def)

section \<open>Lemmas on the loop\<close>

lemma tool_calls_append [simp]: "tool_calls (xs @ ys) = tool_calls xs @ tool_calls ys"
  by (induction xs rule: tool_calls.induct) auto

lemma requests_append [simp]: "requests (xs @ ys) = requests xs @ requests ys"
  by (induction xs rule: requests.induct) auto


lemma final_answer_branch_absent:
  "\<not> contains ''Final Answer:'' msg \<Longrightarrow> final_answer_branch msg s = (s, Continue)"
  by (simp add: final_answer_branch_def)

lemma index_final_answer:
  assumes "contains ''Final Answer:'' msg"
  shows "index (split ''Final Answer:'' msg) 1 = Inr (answer_text msg)"
proof -
  let ?rest = "drop (nat (find_str ''Final Answer:'' msg) + length ''Final Answer:'') msg"
  have "index (split ''Final Answer:'' msg) 1 = Inr (hd (split ''Final Answer:'' ?rest))"
    unfolding One_nat_def by (rule index_split_present) (simp, fact)
  also have "hd (split ''Final Answer:'' ?rest) = answer_text msg"
    unfolding answer_text_def remainder_after_def Let_def by (rule hd_split) simp
  finally show ?thesis .
qed

lemma final_answer_branch_present:
  assumes "contains ''Final Answer:'' msg"
  shows "final_answer_branch msg s =
     (s\<lparr>final_answer_found := True,
        final_answer := Some (strip (answer_text msg)),
        events := events s @ [Log INFO (strip (answer_text msg)), Log DEBUG (scratch_pad s)]\<rparr>,
      Continue)"
  unfolding final_answer_branch_def Let_def
  by (simp only: assms if_True index_final_answer[OF assms] sum.case)
     (simp add: emit_def)

lemma final_answer_branch_Continue: "snd (final_answer_branch msg s) = Continue"
  by (cases "contains ''Final Answer:'' msg")
     (simp_all add: final_answer_branch_absent final_answer_branch_present)

lemma final_answer_branch_keeps:
  "scratch_pad (fst (final_answer_branch msg s)) = scratch_pad s"
  "current_iteration (fst (final_answer_branch msg s)) = current_iteration s"
  "tool_calls (events (fst (final_answer_branch msg s))) = tool_calls (events s)"
  "requests (events (fst (final_answer_branch msg s))) = requests (events s)"
  by (cases "contains ''Final Answer:'' msg";
      simp add: final_answer_branch_absent final_answer_branch_present)+

lemma iteration_unfold:
  "iteration env s =
     (case get_chat_completions env (current_iteration s + 1) (scratch_pad s) of
        Inl e \<Rightarrow> (requested s, Raise e)
      | Inr llm_response \<Rightarrow>
          if current_iteration s + 1 > 10 then
            (emit (Print (scratch_pad s))
               (emit (Log ERROR ''Max iterations reached. Exiting'') (requested s)),
             Break MaxIterationsExceeded)
          else
            (case llm_response of
               Inl e \<Rightarrow> (requested s, Raise e)
             | Inr content \<Rightarrow>
                 dispatch_action env (strip content)
                   (fst (final_answer_branch (strip content) (appended s (strip content))))))"
proof -
  have f: "(case final_answer_branch msg s4 of
              (s5, Continue) \<Rightarrow> dispatch_action env msg s5
            | (s5, c) \<Rightarrow> (s5, c)) = dispatch_action env msg (fst (final_answer_branch msg s4))"
    for msg and s4 :: "'a agent_state"
    using final_answer_branch_Continue[of msg s4]
    by (cases "final_answer_branch msg s4") simp
  show ?thesis
    unfolding iteration_def Let_def f
    by (cases s) (simp add: emit_def appended_def requested_def split: sum.splits)
qed

lemma iteration_receives:
  assumes "receives env s content"
  shows "iteration env s =
     dispatch_action env (strip content)
       (fst (final_answer_branch (strip content) (appended s (strip content))))"
  using assms by (simp add: iteration_unfold receives_def)

lemma dispatch_action_absent:
  "\<not> contains ''Action Input:'' msg \<Longrightarrow> dispatch_action env msg s = (s, Continue)"
  by (simp add: dispatch_action_def)

lemma dispatch_action_keeps:
  "final_answer (fst (dispatch_action env msg s)) = final_answer s"
  "final_answer_found (fst (dispatch_action env msg s)) = final_answer_found s"
  "current_iteration (fst (dispatch_action env msg s)) = current_iteration s"
  "requests (events (fst (dispatch_action env msg s))) = requests (events s)"
  by (simp_all add: dispatch_action_def emit_def Let_def split: sum.splits option.splits)

lemma dispatch_action_prefix:
  "prefix (scratch_pad s) (scratch_pad (fst (dispatch_action env msg s)))"
  by (simp add: dispatch_action_def emit_def Let_def split: sum.splits option.splits)

lemma iteration_prefix: "prefix (scratch_pad s) (scratch_pad (fst (iteration env s)))"
proof -
  have "prefix (scratch_pad s)
          (scratch_pad (fst (dispatch_action env msg (fst (final_answer_branch msg (appended s msg))))))"
    for msg
  proof -
    have "prefix (scratch_pad s) (scratch_pad (fst (final_answer_branch msg (appended s msg))))"
      by (simp add: final_answer_branch_keeps appended_def)
    also have "prefix \<dots> (scratch_pad (fst (dispatch_action env msg (fst (final_answer_branch msg (appended s msg))))))"
      by (rule dispatch_action_prefix)
    finally show ?thesis .
  qed
  then show ?thesis
    by (simp add: iteration_unfold requested_def emit_def split: sum.splits)
qed

lemma main_loop_prefix: "prefix (scratch_pad s) (scratch_pad (fst (main_loop env s)))"
proof (induction env s rule: main_loop.induct)
  case (1 env s)
  show ?case
  proof (cases "final_answer_found s")
    case True
    then show ?thesis by (simp add: main_loop.simps)
  next
    case False
    obtain s' c where it: "iteration env s = (s', c)" by (cases "iteration env s")
    have p: "prefix (scratch_pad s) (scratch_pad s')"
      using iteration_prefix[of s env] by (simp add: it)
    show ?thesis
    proof (cases c)
      case Continue
      from "1.IH"[OF False it[symmetric] Continue] p
      have "prefix (scratch_pad s) (scratch_pad (fst (main_loop env s')))"
        by (rule prefix_order.trans[rotated])
      with False it Continue show ?thesis
        by (subst main_loop.simps) simp
    next
      case (Break r)
      with False it p show ?thesis by (subst main_loop.simps) simp
    next
      case (Raise e)
      with False it p show ?thesis by (subst main_loop.simps) simp
    qed
  qed
qed

lemma main_loop_step:
  "\<not> final_answer_found s \<Longrightarrow>
   main_loop env s =
     (case iteration env s of
        (s', Continue) \<Rightarrow> main_loop env s'
      | (s', Break reason) \<Rightarrow> (s', Aborted reason)
      | (s', Raise e) \<Rightarrow> (s', Raised e))"
  by (subst main_loop.simps) simp

lemma main_loop_done: "final_answer_found s \<Longrightarrow> main_loop env s = (s, Finished)"
  by (subst main_loop.simps) simp

lemma marker_line_absent:
  "\<not> contains marker msg \<Longrightarrow> marker_line marker msg = Inl IndexError"
  by (simp add: marker_line_def index_split_absent)

lemma marker_line_present:
  "marker \<noteq> [] \<Longrightarrow> contains marker msg \<Longrightarrow> \<exists>line. marker_line marker msg = Inr line"
  by (simp add: marker_line_def index_split_present index_split_0)

lemma iteration_dispatch:
  assumes "receives env s content"
    and "contains ''Action Input:'' content"
    and "marker_line ''Action:'' (strip content) = Inr action"
    and "marker_line ''Action Input:'' (strip content) = Inr action_input"
    and "tool_maps env action = Some tool"
  shows "iteration env s =
       (let s5 = fst (final_answer_branch (strip content) (appended s (strip content))) in
        case extract_json (json_loads env) action_input of
          Inl e \<Rightarrow> (s5, Raise e)
        | Inr tool_arguments \<Rightarrow>
            (case tool (current_iteration s + 1) tool_arguments of
               Inl e \<Rightarrow> (emit (ToolCall action tool_arguments) s5, Raise e)
             | Inr tool_response \<Rightarrow>
                 (emit (Log DEBUG (''Observation: '' @ tool_response))
                    (emit (ToolCall action tool_arguments) s5
                       \<lparr>scratch_pad := scratch_pad s5 @ ''\<newline>Observation: '' @ tool_response\<rparr>),
                  Continue)))"
proof -
  have c: "contains ''Action Input:'' (strip content)"
    using assms(2) by (simp add: contains_strip_markers)
  have k: "current_iteration (fst (final_answer_branch (strip content) (appended s (strip content))))
             = current_iteration s + 1"
    by (simp add: final_answer_branch_keeps appended_def)
  show ?thesis
    by (simp add: iteration_receives[OF assms(1)] dispatch_action_def c assms(3-5) k Let_def
          emit_def split: sum.splits)
qed

lemma iteration_counts:
  "requests (events (fst (iteration env s))) = requests (events s) @ [scratch_pad s]"
  "current_iteration (fst (iteration env s)) = current_iteration s + 1"
  "snd (iteration env s) = Continue \<Longrightarrow> current_iteration s < 10"
  by (auto simp: iteration_unfold requested_def emit_def dispatch_action_keeps
        final_answer_branch_keeps appended_def split: sum.splits if_splits)

lemma main_loop_requests_le:
  "current_iteration s \<le> 10 \<Longrightarrow>
   length (requests (events (fst (main_loop env s))))
     \<le> length (requests (events s)) + nat (11 - current_iteration s)"
proof (induction env s rule: main_loop.induct)
  case (1 env s)
  show ?case
  proof (cases "final_answer_found s")
    case True
    then show ?thesis by (simp add: main_loop_done)
  next
    case False
    obtain s' c where it: "iteration env s = (s', c)" by (cases "iteration env s")
    have r: "length (requests (events s')) = length (requests (events s)) + 1"
      and i: "current_iteration s' = current_iteration s + 1"
      using iteration_counts(1,2)[of env s] by (simp_all add: it)
    show ?thesis
    proof (cases c)
      case Continue
      then have lt: "current_iteration s < 10"
        using iteration_counts(3)[of env s] by (simp add: it)
      then have "current_iteration s' \<le> 10" using i by simp
      from "1.IH"[OF False it[symmetric] Continue this] r i lt False it Continue show ?thesis
        by (simp add: main_loop_step)
    next
      case (Break reason)
      with r "1.prems" False it show ?thesis by (simp add: main_loop_step)
    next
      case (Raise e)
      with r "1.prems" False it show ?thesis by (simp add: main_loop_step)
    qed
  qed
qed

lemma idle_loop:
  "\<forall>n t. \<exists>c. get_chat_completions env n t = Inr (Inr c) \<and>
       \<not> contains ''Final Answer:'' c \<and> \<not> contains ''Action Input:'' c \<Longrightarrow>
   \<not> final_answer_found s \<Longrightarrow> current_iteration s \<le> 10 \<Longrightarrow>
     snd (main_loop env s) = Aborted MaxIterationsExceeded \<and>
     length (requests (events (fst (main_loop env s))))
       = length (requests (events s)) + nat (11 - current_iteration s) \<and>
     last (events (fst (main_loop env s))) = Print (scratch_pad (fst (main_loop env s)))"
proof (induction env s rule: main_loop.induct)
  case (1 env s)
  obtain c where c: "get_chat_completions env (current_iteration s + 1) (scratch_pad s) = Inr (Inr c)"
      "\<not> contains ''Final Answer:'' c" "\<not> contains ''Action Input:'' c"
    using "1.prems"(1) by blast
  show ?case
  proof (cases "current_iteration s < 10")
    case True
    let ?s' = "appended s (strip c)"
    have it: "iteration env s = (?s', Continue)"
      using True c
      by (simp add: iteration_unfold contains_strip_markers final_answer_branch_absent
            dispatch_action_absent)
    have "snd (main_loop env ?s') = Aborted MaxIterationsExceeded \<and>
       length (requests (events (fst (main_loop env ?s'))))
         = length (requests (events ?s')) + nat (11 - current_iteration ?s') \<and>
       last (events (fst (main_loop env ?s'))) = Print (scratch_pad (fst (main_loop env ?s')))"
      using "1.prems"(2) True
      by (intro "1.IH"[OF "1.prems"(2) it[symmetric] refl "1.prems"(1)]) (simp_all add: appended_def)
    moreover have "nat (11 - current_iteration s) = Suc (nat (11 - (current_iteration s + 1)))"
      using True by linarith
    ultimately show ?thesis
      using "1.prems"(2) by (simp add: main_loop_step it appended_def)
  next
    case False
    with "1.prems"(3) have ten: "current_iteration s = 10" by simp
    then have it: "iteration env s =
        (emit (Print (scratch_pad s)) (emit (Log ERROR ''Max iterations reached. Exiting'') (requested s)),
         Break MaxIterationsExceeded)"
      using c by (simp add: iteration_unfold)
    with "1.prems"(2) ten show ?thesis
      by (simp add: main_loop_step emit_def requested_def)
  qed
qed

lemma receives_scripted:
  "receives (scripted completions parsed dumped) (initial_state prompt question) (completions 1)"
  by (simp add: receives_def scripted_def initial_state_def)

lemma iteration_tool_result:
  assumes "receives env s content"
    and "contains ''Action Input:'' content"
    and "marker_line ''Action:'' (strip content) = Inr action"
    and "marker_line ''Action Input:'' (strip content) = Inr action_input"
    and "tool_maps env action = Some tool"
    and "extract_json (json_loads env) action_input = Inr args"
    and "tool (current_iteration s + 1) args = Inr obs"
  shows "snd (iteration env s) = Continue"
    and "tool_calls (events (fst (iteration env s))) = tool_calls (events s) @ [(action, args)]"
    and "scratch_pad (fst (iteration env s)) =
           scratch_pad s @ ''\<newline>'' @ strip content @ ''\<newline>Observation: '' @ obs"
  unfolding iteration_dispatch[OF assms(1-5)] Let_def
  by (simp_all add: assms(6,7) emit_def final_answer_branch_keeps appended_def)

lemma iteration_final_answer:
  assumes "receives env s content" and "contains ''Final Answer:'' content"
  shows "final_answer (fst (iteration env s)) = Some (strip (answer_text (strip content)))"
    and "final_answer_found (fst (iteration env s))"
proof -
  have c: "contains ''Final Answer:'' (strip content)"
    using assms(2) by (simp add: contains_strip_markers)
  show "final_answer (fst (iteration env s)) = Some (strip (answer_text (strip content)))"
    and "final_answer_found (fst (iteration env s))"
    by (simp_all add: iteration_receives[OF assms(1)] dispatch_action_keeps
          final_answer_branch_present[OF c])
qed

lemma main_loop_finishes:
  assumes "\<not> final_answer_found s" and "snd (iteration env s) = Continue"
    and "final_answer_found (fst (iteration env s))"
  shows "main_loop env s = (fst (iteration env s), Finished)"
  using assms by (cases "iteration env s") (simp add: main_loop_step main_loop_done)

section \<open>Claims on the agent loop\<close>

text \<open>
  C8. The transcript is append-only: over the dispatch of an action (where an observation is
  recorded), over a whole pass through the loop body (where the completion is recorded) and
  over the whole loop, the transcript before is a prefix of the transcript after, also when
  the pass or the run ends in an exception.
\<close>

theorem transcript_append_only:
  "prefix (scratch_pad s) (scratch_pad (fst (dispatch_action env msg s))) \<and>
   prefix (scratch_pad s) (scratch_pad (fst (iteration env s))) \<and>
   prefix (scratch_pad s) (scratch_pad (fst (main_loop env s)))"
  by (simp add: dispatch_action_prefix iteration_prefix main_loop_prefix)

theorem transcript_append_only_witness:
  "prefix ''p\<newline>Question: q''
     (scratch_pad (fst (main_loop (scripted (\<lambda>n. ''Thought: hm'') [] [])
        (initial_state ''p'' ''q''))))"
  using transcript_append_only[where s = "initial_state ''p'' ''q''"
      and env = "scripted (\<lambda>n. ''Thought: hm'') [] []"]
  by (simp add: initial_state_def)

text \<open>
  C10. A response that contains \<^verbatim>\<open>"Action Input:"\<close> but neither \<^verbatim>\<open>"Action:"\<close> nor
  \<^verbatim>\<open>"Final Answer:"\<close> makes the loop raise \<^verbatim>\<open>IndexError\<close> while it extracts the action name:
  the completion has been appended, no tool is looked up, and the exception ends the run.
\<close>

theorem action_input_without_action:
  assumes "\<not> final_answer_found s" and "receives env s content"
    and "contains ''Action Input:'' content"
    and "\<not> contains ''Action:'' content"
    and "\<not> contains ''Final Answer:'' content"
  shows "iteration env s = (appended s (strip content), Raise IndexError) \<and>
         main_loop env s = (appended s (strip content), Raised IndexError)"
proof -
  have it: "iteration env s = (appended s (strip content), Raise IndexError)"
    using assms(3-5)
    by (simp add: iteration_receives[OF assms(2)] contains_strip_markers
          final_answer_branch_absent dispatch_action_def marker_line_absent)
  with assms(1) show ?thesis
    by (simp add: main_loop_step)
qed

theorem action_input_without_action_witness:
  "\<not> final_answer_found (initial_state ''p'' ''q'' :: json agent_state) \<and>
   receives (scripted (\<lambda>n. ''Action Input: {}'') [] []) (initial_state ''p'' ''q'')
     ''Action Input: {}'' \<and>
   contains ''Action Input:'' ''Action Input: {}'' \<and>
   \<not> contains ''Action:'' ''Action Input: {}'' \<and>
   \<not> contains ''Final Answer:'' ''Action Input: {}'' \<and>
   main_loop (scripted (\<lambda>n. ''Action Input: {}'') [] []) (initial_state ''p'' ''q'')
     = (appended (initial_state ''p'' ''q'') (strip ''Action Input: {}''), Raised IndexError)"
proof -
  let ?c = "''Action Input: {}''"
  let ?env = "scripted (\<lambda>n. ?c) [] []"
  let ?s = "initial_state ''p'' ''q'' :: json agent_state"
  have h1: "\<not> final_answer_found ?s" by (simp add: initial_state_def)
  have h2: "receives ?env ?s ?c" by (rule receives_scripted)
  have h3: "contains ''Action Input:'' ?c" by simp
  have h4: "\<not> contains ''Action:'' ?c" by simp
  have h5: "\<not> contains ''Final Answer:'' ?c" by simp
  from action_input_without_action[where env = ?env and s = ?s and content = ?c, OF h1 h2 h3 h4 h5]
    h1 h2 h3 h4 h5
  show ?thesis by blast
qed

text \<open>
  C7, as the code has it. On every iteration that passes the cap check, the completion,
  stripped of surrounding whitespace and preceded by a newline, is appended to the transcript
  before it is classified: the two tests for the markers run on the state that has it. A response with neither \<^verbatim>\<open>"Final Answer:"\<close> nor
  \<^verbatim>\<open>"Action Input:"\<close> leaves it at that: the pass makes the request, logs and appends the
  stripped completion, dispatches no tool, and the loop goes on with the next iteration.
\<close>

theorem completion_appended_stripped:
  assumes "\<not> final_answer_found s" and "receives env s content"
  shows "prefix (scratch_pad s @ ''\<newline>'' @ strip content) (scratch_pad (fst (iteration env s))) \<and>
         iteration env s =
           dispatch_action env (strip content)
             (fst (final_answer_branch (strip content) (appended s (strip content)))) \<and>
         (\<not> contains ''Final Answer:'' content \<and> \<not> contains ''Action Input:'' content \<longrightarrow>
            iteration env s = (appended s (strip content), Continue) \<and>
            main_loop env s = main_loop env (appended s (strip content)))"
proof -
  let ?msg = "strip content"
  let ?s5 = "fst (final_answer_branch ?msg (appended s ?msg))"
  have "scratch_pad ?s5 = scratch_pad s @ ''\<newline>'' @ ?msg"
    by (simp add: final_answer_branch_keeps appended_def)
  then have 1: "prefix (scratch_pad s @ ''\<newline>'' @ ?msg) (scratch_pad (fst (iteration env s)))"
    using dispatch_action_prefix[of ?s5 env ?msg]
    by (simp add: iteration_receives[OF assms(2)])
  have 2: "iteration env s = (appended s ?msg, Continue)"
    if "\<not> contains ''Final Answer:'' content" "\<not> contains ''Action Input:'' content"
    using that
    by (simp add: iteration_receives[OF assms(2)] contains_strip_markers
          final_answer_branch_absent dispatch_action_absent)
  have 3: "main_loop env s = main_loop env (appended s ?msg)"
    if "\<not> contains ''Final Answer:'' content" "\<not> contains ''Action Input:'' content"
    using 2[OF that] assms(1) by (simp add: main_loop_step)
  from 1 iteration_receives[OF assms(2)] 2 3 show ?thesis
    by blast
qed

theorem completion_appended_stripped_witness:
  "\<not> final_answer_found (initial_state ''p'' ''q'' :: json agent_state) \<and>
   receives (scripted (\<lambda>n. '' hm '') [] []) (initial_state ''p'' ''q'') '' hm '' \<and>
   \<not> contains ''Final Answer:'' '' hm '' \<and> \<not> contains ''Action Input:'' '' hm '' \<and>
   iteration (scripted (\<lambda>n. '' hm '') [] []) (initial_state ''p'' ''q'')
     = (appended (initial_state ''p'' ''q'') (strip '' hm ''), Continue)"
proof -
  let ?c = "'' hm ''"
  let ?env = "scripted (\<lambda>n. ?c) [] []"
  let ?s = "initial_state ''p'' ''q'' :: json agent_state"
  have h1: "\<not> final_answer_found ?s" by (simp add: initial_state_def)
  have h2: "receives ?env ?s ?c" by (rule receives_scripted)
  have h3: "\<not> contains ''Final Answer:'' ?c" by simp
  have h4: "\<not> contains ''Action Input:'' ?c" by simp
  from completion_appended_stripped[where env = ?env and s = ?s and content = ?c, OF h1 h2]
    h1 h2 h3 h4
  show ?thesis by blast
qed

text \<open>
  The completion is not appended verbatim: surrounding whitespace is removed, so the raw
  completion \<^verbatim>\<open>" hm "\<close> is not what the transcript ends with.
\<close>

theorem completion_not_verbatim:
  "scratch_pad (fst (iteration (scripted (\<lambda>n. '' hm '') [] []) (initial_state ''p'' ''q'')))
     = ''p\<newline>Question: q\<newline>hm'' \<and>
   \<not> suffix '' hm ''
     (scratch_pad (fst (iteration (scripted (\<lambda>n. '' hm '') [] []) (initial_state ''p'' ''q''))))"
proof -
  let ?env = "scripted (\<lambda>n. '' hm '') [] []"
  let ?s = "initial_state ''p'' ''q'' :: json agent_state"
  have st: "strip '' hm '' = ''hm''" by (simp add: strip_def isspace_def)
  have r: "receives ?env ?s '' hm ''" by (rule receives_scripted)
  have "iteration ?env ?s = (appended ?s ''hm'', Continue)"
    by (simp add: iteration_receives[OF r] st final_answer_branch_absent dispatch_action_absent)
  then show ?thesis
    by (simp add: appended_def initial_state_def suffix_def)
qed

text \<open>
  C6, as the code has it. For every response with the marker \<^verbatim>\<open>"Final Answer:"\<close>, the
  recorded and logged final answer is the text after the first occurrence of the marker up to
  its next occurrence (to the end of the response when there is none), stripped of surrounding
  whitespace.
\<close>

theorem final_answer_up_to_next_marker:
  assumes "receives env s content" and "contains ''Final Answer:'' content"
  shows "final_answer (fst (iteration env s)) = Some (strip (answer_text (strip content))) \<and>
         final_answer_found (fst (iteration env s)) \<and>
         Log INFO (strip (answer_text (strip content))) \<in> set (events (fst (iteration env s)))"
proof -
  let ?msg = "strip content"
  let ?s5 = "fst (final_answer_branch ?msg (appended s ?msg))"
  have c: "contains ''Final Answer:'' ?msg"
    using assms(2) by (simp add: contains_strip_markers)
  have "set (events ?s5) \<subseteq> set (events (fst (dispatch_action env ?msg ?s5)))"
    by (auto simp: dispatch_action_def emit_def Let_def split: sum.splits option.splits)
  moreover have "Log INFO (strip (answer_text ?msg)) \<in> set (events ?s5)"
    by (simp add: final_answer_branch_present[OF c])
  ultimately have "Log INFO (strip (answer_text ?msg)) \<in> set (events (fst (iteration env s)))"
    by (auto simp: iteration_receives[OF assms(1)])
  then show ?thesis
    by (simp add: iteration_receives[OF assms(1)] dispatch_action_keeps
          final_answer_branch_present[OF c])
qed

theorem final_answer_up_to_next_marker_witness:
  "receives (scripted (\<lambda>n. ''Final Answer: a Final Answer: b'') [] [])
     (initial_state ''p'' ''q'') ''Final Answer: a Final Answer: b'' \<and>
   contains ''Final Answer:'' ''Final Answer: a Final Answer: b'' \<and>
   final_answer (fst (iteration (scripted (\<lambda>n. ''Final Answer: a Final Answer: b'') [] [])
     (initial_state ''p'' ''q''))) = Some ''a''"
proof -
  let ?c = "''Final Answer: a Final Answer: b''"
  let ?env = "scripted (\<lambda>n. ?c) [] []"
  let ?s = "initial_state ''p'' ''q'' :: json agent_state"
  have h1: "receives ?env ?s ?c" by (rule receives_scripted)
  have h2: "contains ''Final Answer:'' ?c" by simp
  have st: "strip ?c = ?c" by (simp add: strip_def isspace_def)
  have at: "strip (answer_text (strip ?c)) = ''a''"
    unfolding st by (simp add: answer_text_def remainder_after_def strip_def isspace_def Let_def)
  from final_answer_up_to_next_marker[where env = ?env and s = ?s and content = ?c, OF h1 h2]
    h1 h2 at
  show ?thesis by simp
qed

text \<open>
  With two occurrences of the marker the recorded answer is not the whole remainder after the
  first one: \<^verbatim>\<open>"Final Answer: a Final Answer: b"\<close> records \<^verbatim>\<open>"a"\<close>.
\<close>

theorem final_answer_cut_at_second_marker:
  "final_answer (fst (main (scripted (\<lambda>n. ''Final Answer: a Final Answer: b'') [] []) ''p'' ''q''))
     = Some ''a'' \<and>
   final_answer (fst (main (scripted (\<lambda>n. ''Final Answer: a Final Answer: b'') [] []) ''p'' ''q''))
     \<noteq> Some (strip (remainder_after ''Final Answer:'' ''Final Answer: a Final Answer: b''))"
proof -
  let ?c = "''Final Answer: a Final Answer: b''"
  let ?env = "scripted (\<lambda>n. ?c) [] []"
  let ?s = "initial_state ''p'' ''q'' :: json agent_state"
  have st: "strip ?c = ?c" by (simp add: strip_def isspace_def)
  have r: "receives ?env ?s ?c" by (rule receives_scripted)
  have n: "\<not> final_answer_found ?s" by (simp add: initial_state_def)
  have fa: "contains ''Final Answer:'' ?c" by simp
  have ai: "\<not> contains ''Action Input:'' ?c" by simp
  have at: "strip (answer_text (strip ?c)) = ''a''"
    unfolding st by (simp add: answer_text_def remainder_after_def strip_def isspace_def Let_def)
  have c: "snd (iteration ?env ?s) = Continue"
    unfolding iteration_receives[OF r] st dispatch_action_absent[OF ai]
    by (simp add: final_answer_branch_Continue)
  note fr = iteration_final_answer[OF r fa]
  have "main ?env ''p'' ''q'' = (fst (iteration ?env ?s), Finished)"
    unfolding main_def using n c fr(2) by (rule main_loop_finishes)
  moreover have "strip (remainder_after ''Final Answer:'' ?c) = ''a Final Answer: b''"
    by (simp add: remainder_after_def) (simp add: strip_def isspace_def)
  ultimately show ?thesis using fr(1) at by simp
qed

text \<open>
  C4. When the action name of a response is not a key of \<^verbatim>\<open>tool_maps\<close>, the pass logs the
  error \<^verbatim>\<open>"Tool not found. Exiting!"\<close> last and leaves the loop by \<^verbatim>\<open>break\<close>: the run ends
  aborted, not in an exception, no tool has been called, and the outcome does not depend on
  \<^verbatim>\<open>json.loads\<close>, which is never reached.
\<close>

theorem unknown_tool_aborts:
  assumes "\<not> final_answer_found s" and "receives env s content"
    and "contains ''Action Input:'' content"
    and "marker_line ''Action:'' (strip content) = Inr action"
    and "tool_maps env action = None"
  shows "snd (iteration env s) = Break UnknownTool \<and>
         main_loop env s = (fst (iteration env s), Aborted UnknownTool) \<and>
         last (events (fst (iteration env s))) = Log ERROR ''Tool not found. Exiting!'' \<and>
         tool_calls (events (fst (iteration env s))) = tool_calls (events s) \<and>
         iteration (env\<lparr>json_loads := loads\<rparr>) s = iteration env s"
proof -
  let ?msg = "strip content"
  let ?s5 = "fst (final_answer_branch ?msg (appended s ?msg))"
  have c: "contains ''Action Input:'' ?msg"
    using assms(3) by (simp add: contains_strip_markers)
  obtain action_input where ai: "marker_line ''Action Input:'' ?msg = Inr action_input"
    using marker_line_present[OF _ c] by auto
  have d: "dispatch_action env' ?msg ?s5 =
             (emit (Log ERROR ''Tool not found. Exiting!'') ?s5, Break UnknownTool)"
    if "tool_maps env' action = None" for env' :: "'a env"
    using that by (simp add: dispatch_action_def c assms(4) ai)
  have it: "iteration env s = (emit (Log ERROR ''Tool not found. Exiting!'') ?s5, Break UnknownTool)"
    by (simp add: iteration_receives[OF assms(2)] d[OF assms(5)])
  have r': "receives (env\<lparr>json_loads := loads\<rparr>) s content"
    using assms(2) by (simp add: receives_def)
  have t': "tool_maps (env\<lparr>json_loads := loads\<rparr>) action = None"
    using assms(5) by (simp add: tool_maps_def split: if_splits)
  have it': "iteration (env\<lparr>json_loads := loads\<rparr>) s = iteration env s"
    by (simp add: it iteration_receives[OF r'] d[OF t'])
  have tc: "tool_calls (events ?s5) = tool_calls (events s)"
    by (simp add: final_answer_branch_keeps appended_def)
  from it it' tc assms(1) show ?thesis
    by (simp add: main_loop_step emit_def)
qed

theorem unknown_tool_aborts_witness:
  "\<not> final_answer_found (initial_state ''p'' ''q'' :: json agent_state) \<and>
   receives (scripted (\<lambda>n. ''Action: foo\<newline>Action Input: {}'') [] [])
     (initial_state ''p'' ''q'') ''Action: foo\<newline>Action Input: {}'' \<and>
   contains ''Action Input:'' ''Action: foo\<newline>Action Input: {}'' \<and>
   marker_line ''Action:'' (strip ''Action: foo\<newline>Action Input: {}'') = Inr ''foo'' \<and>
   tool_maps (scripted (\<lambda>n. ''Action: foo\<newline>Action Input: {}'') [] []) ''foo'' = None \<and>
   snd (main_loop (scripted (\<lambda>n. ''Action: foo\<newline>Action Input: {}'') [] [])
     (initial_state ''p'' ''q'')) = Aborted UnknownTool \<and>
   tool_calls (events (fst (iteration (scripted (\<lambda>n. ''Action: foo\<newline>Action Input: {}'') [] [])
     (initial_state ''p'' ''q'')))) = []"
proof -
  let ?c = "''Action: foo\<newline>Action Input: {}''"
  let ?env = "scripted (\<lambda>n. ?c) [] []"
  let ?s = "initial_state ''p'' ''q'' :: json agent_state"
  have h1: "\<not> final_answer_found ?s" by (simp add: initial_state_def)
  have h2: "receives ?env ?s ?c" by (rule receives_scripted)
  have h3: "contains ''Action Input:'' ?c" by simp
  have h4: "marker_line ''Action:'' (strip ?c) = Inr ''foo''"
    by (simp add: marker_line_def index_def strip_def isspace_def)
  have h5: "tool_maps ?env ''foo'' = None" by (simp add: tool_maps_def)
  have e: "tool_calls (events ?s) = []" by (simp add: initial_state_def)
  from unknown_tool_aborts[where env = ?env and s = ?s and content = ?c and action = "''foo''"
      and loads = "json_loads ?env", OF h1 h2 h3 h4 h5]
    h1 h2 h3 h4 h5 e
  show ?thesis by simp
qed

text \<open>
  C9. When the action name is a key of \<^verbatim>\<open>tool_maps\<close>: an exception of \<^verbatim>\<open>extract_json\<close> on
  the action input ends the pass and the run with that same exception, with no tool called;
  otherwise the tool is called once, on the extracted arguments, and an exception it raises
  ends the pass and the run with that same exception; when it returns, its result is appended
  as \<^verbatim>\<open>"\nObservation: <result>"\<close> and the loop goes on.
\<close>

theorem known_tool_dispatch:
  assumes "\<not> final_answer_found s" and "receives env s content"
    and "contains ''Action Input:'' content"
    and "marker_line ''Action:'' (strip content) = Inr action"
    and "marker_line ''Action Input:'' (strip content) = Inr action_input"
    and "tool_maps env action = Some tool"
  shows "(\<forall>e. extract_json (json_loads env) action_input = Inl e \<longrightarrow>
            snd (iteration env s) = Raise e \<and> snd (main_loop env s) = Raised e \<and>
            tool_calls (events (fst (iteration env s))) = tool_calls (events s)) \<and>
         (\<forall>args. extract_json (json_loads env) action_input = Inr args \<longrightarrow>
            tool_calls (events (fst (iteration env s))) = tool_calls (events s) @ [(action, args)] \<and>
            (\<forall>e. tool (current_iteration s + 1) args = Inl e \<longrightarrow>
               snd (iteration env s) = Raise e \<and> snd (main_loop env s) = Raised e) \<and>
            (\<forall>obs. tool (current_iteration s + 1) args = Inr obs \<longrightarrow>
               snd (iteration env s) = Continue \<and>
               scratch_pad (fst (iteration env s)) =
                 scratch_pad s @ ''\<newline>'' @ strip content @ ''\<newline>Observation: '' @ obs))"
proof -
  let ?msg = "strip content"
  let ?s5 = "fst (final_answer_branch ?msg (appended s ?msg))"
  have c: "contains ''Action Input:'' ?msg"
    using assms(3) by (simp add: contains_strip_markers)
  have k: "tool_calls (events ?s5) = tool_calls (events s)"
     "current_iteration ?s5 = current_iteration s + 1"
     "scratch_pad ?s5 = scratch_pad s @ ''\<newline>'' @ ?msg"
    by (simp_all add: final_answer_branch_keeps appended_def)
  have it: "iteration env s =
       (case extract_json (json_loads env) action_input of
          Inl e \<Rightarrow> (?s5, Raise e)
        | Inr tool_arguments \<Rightarrow>
            (case tool (current_iteration s + 1) tool_arguments of
               Inl e \<Rightarrow> (emit (ToolCall action tool_arguments) ?s5, Raise e)
             | Inr tool_response \<Rightarrow>
                 (emit (Log DEBUG (''Observation: '' @ tool_response))
                    (emit (ToolCall action tool_arguments) ?s5
                       \<lparr>scratch_pad := scratch_pad ?s5 @ ''\<newline>Observation: '' @ tool_response\<rparr>),
                  Continue)))"
    by (simp add: iteration_receives[OF assms(2)] dispatch_action_def c assms(4-6) k(2) Let_def
          emit_def split: sum.splits)
  have ml: "snd (main_loop env s) = Raised e" if "snd (iteration env s) = Raise e" for e
    using that assms(1) by (cases "iteration env s") (simp add: main_loop_step)
  have 1: "snd (iteration env s) = Raise e \<and> snd (main_loop env s) = Raised e \<and>
           tool_calls (events (fst (iteration env s))) = tool_calls (events s)"
    if "extract_json (json_loads env) action_input = Inl e" for e
    using that ml[of e] by (simp add: it k)
  have 2: "tool_calls (events (fst (iteration env s))) = tool_calls (events s) @ [(action, args)]"
    if "extract_json (json_loads env) action_input = Inr args" for args
    using that by (simp add: it k emit_def split: sum.splits)
  have 3: "snd (iteration env s) = Raise e \<and> snd (main_loop env s) = Raised e"
    if "extract_json (json_loads env) action_input = Inr args"
       "tool (current_iteration s + 1) args = Inl e" for args e
    using that ml[of e] by (simp add: it)
  have 4: "snd (iteration env s) = Continue \<and>
           scratch_pad (fst (iteration env s)) =
             scratch_pad s @ ''\<newline>'' @ strip content @ ''\<newline>Observation: '' @ obs"
    if "extract_json (json_loads env) action_input = Inr args"
       "tool (current_iteration s + 1) args = Inr obs" for args obs
    using that by (simp add: it k emit_def)
  from 1 2 3 4 show ?thesis by blast
qed

theorem known_tool_dispatch_witness:
  "\<not> final_answer_found (initial_state ''p'' ''q'' :: json agent_state) \<and>
   receives (scripted (\<lambda>n. ''Action: get_weather\<newline>Action Input: {}'') [] [])
     (initial_state ''p'' ''q'') ''Action: get_weather\<newline>Action Input: {}'' \<and>
   contains ''Action Input:'' ''Action: get_weather\<newline>Action Input: {}'' \<and>
   marker_line ''Action:'' (strip ''Action: get_weather\<newline>Action Input: {}'')
     = Inr ''get_weather'' \<and>
   marker_line ''Action Input:'' (strip ''Action: get_weather\<newline>Action Input: {}'')
     = Inr ''{}'' \<and>
   tool_calls (events (fst (iteration
       (scripted (\<lambda>n. ''Action: get_weather\<newline>Action Input: {}'') [] [])
       (initial_state ''p'' ''q'')))) = [(''get_weather'', [])] \<and>
   snd (main_loop
       (scripted (\<lambda>n. ''Action: get_weather\<newline>Action Input: {}'') [] [])
       (initial_state ''p'' ''q'')) = Raised TypeError"
proof -
  let ?c = "''Action: get_weather\<newline>Action Input: {}''"
  let ?env = "scripted (\<lambda>n. ?c) [] []"
  let ?s = "initial_state ''p'' ''q'' :: json agent_state"
  have h1: "\<not> final_answer_found ?s" by (simp add: initial_state_def)
  have h2: "receives ?env ?s ?c" by (rule receives_scripted)
  have h3: "contains ''Action Input:'' ?c" by simp
  have h4: "marker_line ''Action:'' (strip ?c) = Inr ''get_weather''"
    by (simp add: marker_line_def index_def strip_def isspace_def)
  have h5: "marker_line ''Action Input:'' (strip ?c) = Inr ''{}''"
    by (simp add: marker_line_def index_def strip_def isspace_def)
  have h6: "tool_maps ?env ''get_weather'' = Some (get_weather ?env)"
    by (simp add: tool_maps_def)
  have x: "extract_json (json_loads ?env) ''{}'' = Inr []"
    using extract_json_at_brace[of "[]" "json_loads ?env"] by (simp add: scripted_def)
  have w: "get_weather ?env (current_iteration ?s + 1) [] = Inl TypeError"
    by (simp add: get_weather_def)
  have e: "tool_calls (events ?s) = []" by (simp add: initial_state_def)
  from known_tool_dispatch[where env = ?env and s = ?s and content = ?c
      and action = "''get_weather''" and action_input = "''{}''"
      and tool = "get_weather ?env", OF h1 h2 h3 h4 h5 h6] x w e
  have "tool_calls (events (fst (iteration ?env ?s))) = [(''get_weather'', [])]"
    and "snd (main_loop ?env ?s) = Raised TypeError"
    by simp_all
  with h1 h2 h3 h4 h5 show ?thesis by blast
qed

text \<open>
  C2 on the code: a response with \<^verbatim>\<open>"Final Answer:"\<close> followed by an action for the known
  tool \<^verbatim>\<open>get_weather\<close> records the final answer, and then still calls the tool before the
  run finishes.
\<close>

theorem tool_invoked_after_final_answer:
  \<open>tool_calls (events (fst (main (scripted
       (\<lambda>n. ''Final Answer: X\<newline>Action: get_weather\<newline>Action Input: {"city": "Paris"}'')
       [(''city'', JStr ''Paris'')]
       ''{"temperature": 25, "weather": "sunny", "city": "Paris"}'') ''p'' ''q'')))
     = [(''get_weather'', [(''city'', JStr ''Paris'')])] \<and>
   final_answer (fst (main (scripted
       (\<lambda>n. ''Final Answer: X\<newline>Action: get_weather\<newline>Action Input: {"city": "Paris"}'')
       [(''city'', JStr ''Paris'')]
       ''{"temperature": 25, "weather": "sunny", "city": "Paris"}'') ''p'' ''q''))
     = Some ''X\<newline>Action: get_weather\<newline>Action Input: {"city": "Paris"}'' \<and>
   snd (main (scripted
       (\<lambda>n. ''Final Answer: X\<newline>Action: get_weather\<newline>Action Input: {"city": "Paris"}'')
       [(''city'', JStr ''Paris'')]
       ''{"temperature": 25, "weather": "sunny", "city": "Paris"}'') ''p'' ''q'') = Finished\<close>
proof -
  let ?c = \<open>''Final Answer: X\<newline>Action: get_weather\<newline>Action Input: {"city": "Paris"}''\<close>
  let ?d = \<open>''{"temperature": 25, "weather": "sunny", "city": "Paris"}''\<close>
  let ?env = "scripted (\<lambda>n. ?c) [(''city'', JStr ''Paris'')] ?d"
  let ?s = "initial_state ''p'' ''q'' :: json agent_state"
  have st: "strip ?c = ?c" by (simp add: strip_def isspace_def)
  have r: "receives ?env ?s ?c" by (rule receives_scripted)
  have n: "\<not> final_answer_found ?s" by (simp add: initial_state_def)
  have fa: "contains ''Final Answer:'' ?c" by simp
  have ai: "contains ''Action Input:'' ?c" by simp
  have a: "marker_line ''Action:'' (strip ?c) = Inr ''get_weather''"
    by (simp add: st marker_line_def index_def strip_def isspace_def)
  have i: \<open>marker_line ''Action Input:'' (strip ?c) = Inr ''{"city": "Paris"}''\<close>
    by (simp add: st marker_line_def index_def strip_def isspace_def)
  have t: "tool_maps ?env ''get_weather'' = Some (get_weather ?env)"
    by (simp add: tool_maps_def)
  have x: \<open>extract_json (json_loads ?env) ''{"city": "Paris"}'' = Inr [(''city'', JStr ''Paris'')]\<close>
    using extract_json_at_brace[of "[]" "json_loads ?env"] by (simp add: scripted_def)
  have w: "get_weather ?env (current_iteration ?s + 1) [(''city'', JStr ''Paris'')] = Inr ?d"
    by (simp add: get_weather_def scripted_def)
  have at: \<open>strip (answer_text (strip ?c)) = ''X\<newline>Action: get_weather\<newline>Action Input: {"city": "Paris"}''\<close>
    unfolding st by (simp add: answer_text_def remainder_after_def strip_def isspace_def Let_def)
  note tr = iteration_tool_result[where tool = "get_weather ?env" and env = ?env and s = ?s
     and content = ?c and action = "''get_weather''" and obs = ?d
     and args = "[(''city'', JStr ''Paris'')]", OF r ai a i t x w]
  note fr = iteration_final_answer[OF r fa]
  have "main ?env ''p'' ''q'' = (fst (iteration ?env ?s), Finished)"
    unfolding main_def using n tr(1) fr(2) by (rule main_loop_finishes)
  with tr(2) fr(1) at show ?thesis
    by (simp add: initial_state_def)
qed

text \<open>
  C3 on the code: when no completion holds a marker, the run makes eleven requests before it
  ends with the cap reached.
\<close>

theorem eleven_requests:
  "length (requests (events (fst (main (scripted (\<lambda>n. ''Thought: hm'') [] []) ''p'' ''q'')))) = 11 \<and>
   snd (main (scripted (\<lambda>n. ''Thought: hm'') [] []) ''p'' ''q'') = Aborted MaxIterationsExceeded"
proof -
  have "\<forall>n t. \<exists>c. get_chat_completions (scripted (\<lambda>n. ''Thought: hm'') [] []) n t = Inr (Inr c) \<and>
       \<not> contains ''Final Answer:'' c \<and> \<not> contains ''Action Input:'' c"
    by (simp add: scripted_def)
  from idle_loop[OF this, of "initial_state ''p'' ''q''"] show ?thesis
    by (simp add: main_def initial_state_def)
qed

end
